theory Spec2Isabelle
  imports Main "HOL-Library.Word"
begin

unbundle bit_operations_syntax

section \<open>Bytes on the wire\<close>

text \<open>
  The controller (\<^verbatim>\<open>src/linTAS/main.c\<close>) passes the address of a C object and its
  size to \<^verbatim>\<open>send\<close> and \<^verbatim>\<open>recv\<close>.  An \<^verbatim>\<open>unsigned int\<close> is a 32-bit word, an
  \<^verbatim>\<open>unsigned long\<close> a 64-bit word (Linux, LP64), and the object representation is
  little-endian: the low byte comes first.
\<close>

type_synonym byte = "8 word"
type_synonym u32 = "32 word"
type_synonym u64 = "64 word"

text \<open>The first \<open>n\<close> bytes of the object representation of a word.\<close>

fun le_bytes :: "nat \<Rightarrow> 'a::len word \<Rightarrow> byte list" where
  "le_bytes 0 w = []"
| "le_bytes (Suc n) w = ucast w # le_bytes n (drop_bit 8 w)"

text \<open>The word whose object representation starts with the given bytes.\<close>

fun le_word :: "byte list \<Rightarrow> 'a::len word" where
  "le_word [] = 0"
| "le_word (b # bs) = ucast b + push_bit 8 (le_word bs)"

text \<open>
  Writing \<open>new\<close> at the start of an object whose bytes are \<open>old\<close>: the bytes beyond the
  ones written keep their value.
\<close>

definition overwrite :: "byte list \<Rightarrow> byte list \<Rightarrow> byte list" where
  "overwrite new old = new @ drop (length new) old"



section \<open>The controller: state, environment and library calls\<close>

text \<open>
  \<^verbatim>\<open>struct TasFlags\<close> is declared in \<^verbatim>\<open>shared/tasflags.h\<close>; the controller uses two
  of its fields: \<^verbatim>\<open>running\<close>, only ever negated and tested, and \<^verbatim>\<open>speed_divisor\<close>, an
  \<^verbatim>\<open>unsigned int\<close>.
\<close>

record TasFlags =
  running :: bool
  speed_divisor :: u32

text \<open>The two entries of the \<^verbatim>\<open>hotkeys\<close> array that \<^verbatim>\<open>main\<close> reads.\<close>

datatype hotkey = HOTKEY_PLAYPAUSE | HOTKEY_FRAMEADVANCE

type_synonym KeySym = u64

text \<open>
  An X event as \<^verbatim>\<open>main\<close> sees it: a key press, with the key symbol that
  \<^verbatim>\<open>XkbKeycodeToKeysym\<close> gives for its key code, or any other event.
\<close>

datatype xevent = KeyPress KeySym | OtherEvent

text \<open>The lines the controller prints, in the order they appear in \<^verbatim>\<open>proceed_command\<close>.\<close>

datatype message =
    NoSuchCommand
  | PromptSpeed
  | PromptSaveFile
  | PromptFirstFrame
  | PromptLoadFile
  | LoadFailed

text \<open>
  A call on the socket: the bytes handed to \<^verbatim>\<open>send\<close>, or the size asked of \<^verbatim>\<open>recv\<close>
  with the bytes it stored.
\<close>

datatype sock_event = Sent "byte list" | Received nat "byte list"

text \<open>
  The globals of \<^verbatim>\<open>main.c\<close> (\<open>tasflags\<close>, \<open>frame_counter\<close>, \<open>keyboard_state\<close>,
  \<open>hotkeys\<close>), what the environment will supply (the characters still unread on
  \<open>stdin\<close>, after which the stream is at end of file, the chunks \<open>incoming\<close> on
  the stream socket, the key maps the X server will report, the indeterminate contents
  of the two uninitialised locals of \<^verbatim>\<open>proceed_command\<close>), and what the controller
  has done so far (\<open>socket_log\<close>, \<open>stdout\<close>, whether the socket is still open).
\<close>

record world =
  tasflags :: TasFlags
  frame_counter :: u64
  keyboard_state :: "byte list"
  hotkeys :: "hotkey \<Rightarrow> KeySym"
  stdin :: "byte list"
  incoming :: "byte list list"
  keymaps :: "byte list list"
  uninit_filename_buffer :: "byte list"
  uninit_answer :: byte
  socket_log :: "sock_event list"
  stdout :: "message list"
  socket_open :: bool

datatype fault = LoopsForever | BufferOverrun

definition printf :: "message \<Rightarrow> world \<Rightarrow> world" where
  "printf m w = w\<lparr>stdout := stdout w @ [m]\<rparr>"

text \<open>\<^verbatim>\<open>send(socket_fd, buf, n, 0)\<close>; the controller ignores the return value.\<close>

definition send :: "byte list \<Rightarrow> nat \<Rightarrow> world \<Rightarrow> world" where
  "send buf n w = w\<lparr>socket_log := socket_log w @ [Sent (take n buf)]\<rparr>"

text \<open>
  \<^verbatim>\<open>recv(socket_fd, buf, n, 0)\<close> gives the bytes to store at the start of \<open>buf\<close>: at
  most \<open>n\<close> bytes of the first chunk, the rest of which stays in the stream.  With
  nothing incoming (error or closed connection) it stores nothing.  The controller
  ignores the return value.
\<close>

definition recv :: "nat \<Rightarrow> world \<Rightarrow> byte list \<times> world" where
  "recv n w =
     (case incoming w of
        [] \<Rightarrow> ([], w\<lparr>socket_log := socket_log w @ [Received n []]\<rparr>)
      | r # rs \<Rightarrow>
          (take n r,
           w\<lparr>incoming := (if length r \<le> n then rs else drop n r # rs),
             socket_log := socket_log w @ [Received n (take n r)]\<rparr>))"

text \<open>
  The C library's \<^verbatim>\<open>scanf\<close>, in the C locale.  White space is the space and the
  characters 9 to 13; a digit is one of the characters 48 to 57.
\<close>

definition isspace :: "byte \<Rightarrow> bool" where
  "isspace c \<longleftrightarrow> c = 32 \<or> (9 \<le> c \<and> c \<le> 13)"

definition isdigit :: "byte \<Rightarrow> bool" where
  "isdigit c \<longleftrightarrow> 48 \<le> c \<and> c \<le> 57"

text \<open>The value of a string of decimal digits.\<close>

definition decimal :: "byte list \<Rightarrow> int" where
  "decimal ds = foldl (\<lambda>n d. 10 * n + uint (d - 48)) 0 ds"

text \<open>
  The integer conversions \<^verbatim>\<open>%d\<close> and \<^verbatim>\<open>%lu\<close> read alike.  Leading white space is
  consumed; at end of file the call returns \<^verbatim>\<open>EOF\<close> (\<open>-1\<close>).  Then an optional sign
  and the longest run of digits are consumed.  With no digit it is a matching failure
  (return value 0): the sign, if any, stays consumed and the character after it stays
  in the input.  Otherwise the call returns 1; the result here is whether the sign is
  \<open>-\<close> and the value of the digits.
\<close>

definition scan_integer :: "byte list \<Rightarrow> int \<times> (bool \<times> int) option \<times> byte list" where
  "scan_integer inp =
     (case dropWhile isspace inp of
        [] \<Rightarrow> (- 1, None, [])
      | c # cs \<Rightarrow>
          (let body = (if c = 43 \<or> c = 45 then cs else c # cs);
               ds = takeWhile isdigit body
           in if ds = [] then (0, None, body)
              else (1, Some (c = 45, decimal ds), dropWhile isdigit body)))"

text \<open>
  \<^verbatim>\<open>strtol\<close> on the sign and digits read: a value outside \<^verbatim>\<open>long\<close> becomes
  \<^verbatim>\<open>LONG_MIN\<close> or \<^verbatim>\<open>LONG_MAX\<close>.
\<close>

definition strtol :: "bool \<Rightarrow> int \<Rightarrow> int" where
  "strtol negative m =
     (if negative then (if 2 ^ 63 < m then - (2 ^ 63) else - m)
      else (if 2 ^ 63 - 1 < m then 2 ^ 63 - 1 else m))"

text \<open>
  \<^verbatim>\<open>strtoul\<close> on the sign and digits read: digits beyond \<^verbatim>\<open>ULONG_MAX\<close> give
  \<^verbatim>\<open>ULONG_MAX\<close>; otherwise a \<open>-\<close> sign negates the value in 64 bits.
\<close>

definition strtoul :: "bool \<Rightarrow> int \<Rightarrow> u64" where
  "strtoul negative m =
     (if 2 ^ 64 - 1 < m then - 1
      else if negative then - word_of_int m
      else word_of_int m)"

text \<open>
  \<^verbatim>\<open>scanf("%d", p)\<close>: the return value, the value to store through \<open>p\<close> if the
  conversion succeeded (the \<^verbatim>\<open>long\<close> of \<^verbatim>\<open>strtol\<close> cut to the 32 bits of an
  \<^verbatim>\<open>int\<close>), and the world after.
\<close>

definition scanf_d :: "world \<Rightarrow> int \<times> u32 option \<times> world" where
  "scanf_d w =
     (case scan_integer (stdin w) of
        (r, None, rest) \<Rightarrow> (r, None, w\<lparr>stdin := rest\<rparr>)
      | (r, Some (negative, m), rest) \<Rightarrow>
          (r, Some (word_of_int (strtol negative m)), w\<lparr>stdin := rest\<rparr>))"

text \<open>\<^verbatim>\<open>scanf("%lu", p)\<close>, likewise, with \<^verbatim>\<open>strtoul\<close>.\<close>

definition scanf_lu :: "world \<Rightarrow> int \<times> u64 option \<times> world" where
  "scanf_lu w =
     (case scan_integer (stdin w) of
        (r, None, rest) \<Rightarrow> (r, None, w\<lparr>stdin := rest\<rparr>)
      | (r, Some (negative, m), rest) \<Rightarrow>
          (r, Some (strtoul negative m), w\<lparr>stdin := rest\<rparr>))"

text \<open>
  \<^verbatim>\<open>scanf("%s", p)\<close> consumes leading white space, returns \<^verbatim>\<open>EOF\<close> at end of file,
  and otherwise stores the characters up to the next white space and a terminating
  zero, however many they are.
\<close>

definition scanf_s :: "world \<Rightarrow> int \<times> byte list option \<times> world" where
  "scanf_s w =
     (case dropWhile isspace (stdin w) of
        [] \<Rightarrow> (- 1, None, w\<lparr>stdin := []\<rparr>)
      | c # cs \<Rightarrow>
          (1, Some (takeWhile (\<lambda>x. \<not> isspace x) (c # cs) @ [0]),
           w\<lparr>stdin := dropWhile (\<lambda>x. \<not> isspace x) (c # cs)\<rparr>))"

text \<open>
  \<^verbatim>\<open>XQueryKeymap(display, keyboard_state)\<close> stores the 32 bytes the server reports; when
  the environment has no report left the array keeps its contents.
\<close>

definition XQueryKeymap :: "world \<Rightarrow> world" where
  "XQueryKeymap w =
     (case keymaps w of
        [] \<Rightarrow> w
      | k # ks \<Rightarrow> w\<lparr>keyboard_state := overwrite (take 32 k) (keyboard_state w), keymaps := ks\<rparr>)"

definition set_running :: "bool \<Rightarrow> world \<Rightarrow> world" where
  "set_running b w = w\<lparr>tasflags := (tasflags w)\<lparr>running := b\<rparr>\<rparr>"

definition set_speed_divisor :: "u32 \<Rightarrow> world \<Rightarrow> world" where
  "set_speed_divisor v w = w\<lparr>tasflags := (tasflags w)\<lparr>speed_divisor := v\<rparr>\<rparr>"

section \<open>\<^verbatim>\<open>proceed_command\<close>\<close>

text \<open>
  Case 9, lines 175 to 180: the body of the \<^verbatim>\<open>do\<close> loop prints the prompt and scans
  into \<^verbatim>\<open>tasflags.speed_divisor\<close>; the loop goes on while the stored divisor is zero.
  The loop need not end: \<open>None\<close> is the run that prompts for ever.
\<close>

definition speed_prompt :: "world \<Rightarrow> world" where
  "speed_prompt w =
     (case scanf_d (printf PromptSpeed w) of
        (r, None, w') \<Rightarrow> w'
      | (r, Some v, w') \<Rightarrow> set_speed_divisor v w')"

partial_function (option) speed_loop :: "world \<Rightarrow> world option" where
  "speed_loop w =
     (let w' = speed_prompt w
      in if speed_divisor (tasflags w') = 0 then speed_loop w' else Some w')"

text \<open>
  Case 10, lines 190 to 193: the loop prints the prompt and goes on while \<^verbatim>\<open>scanf\<close>
  returns 0; \<^verbatim>\<open>EOF\<close> ends it with \<open>first_frame\<close> as it was.
\<close>

partial_function (option) first_frame_loop :: "u64 \<Rightarrow> world \<Rightarrow> (u64 \<times> world) option" where
  "first_frame_loop first_frame w =
     (case scanf_lu (printf PromptFirstFrame w) of
        (r, v, w') \<Rightarrow>
          (if r = 0 then first_frame_loop (case v of None \<Rightarrow> first_frame | Some x \<Rightarrow> x) w'
           else Some (case v of None \<Rightarrow> first_frame | Some x \<Rightarrow> x, w')))"

text \<open>
  \<^verbatim>\<open>scanf("%s", filename_buffer)\<close> into the uninitialised \<^verbatim>\<open>char filename_buffer[1024]\<close>:
  a name of 1024 characters or more, with its terminating zero, is written past the
  end of the array.
\<close>

definition read_filename :: "world \<Rightarrow> fault + (byte list \<times> world)" where
  "read_filename w =
     (case scanf_s w of
        (r, None, w') \<Rightarrow> Inr (uninit_filename_buffer w, w')
      | (r, Some s, w') \<Rightarrow>
          (if 1024 < length s then Inl BufferOverrun
           else Inr (overwrite s (uninit_filename_buffer w), w')))"

definition proceed_command :: "u32 \<Rightarrow> world \<Rightarrow> fault + (int \<times> world)" where
  "proceed_command command w =
     (if command = 0 then Inr (0, w)
      else if 11 < command then Inr (0, printf NoSuchCommand w)
      else
        let w1 = send (le_bytes 4 command) 4 w in
        if command = 7 then Inr (0, set_running (\<not> running (tasflags w1)) w1)
        else if command = 8 then
          (let w2 = send (keyboard_state w1) 32 w1
           in case recv 8 w2 of
                (got, w3) \<Rightarrow>
                  Inr (0, w3\<lparr>frame_counter :=
                              le_word (overwrite got (le_bytes 8 (frame_counter w3)))\<rparr>))
        else if command = 9 then
          (case speed_loop (set_speed_divisor 0 w1) of
             None \<Rightarrow> Inl LoopsForever
           | Some w2 \<Rightarrow> Inr (0, send (le_bytes 4 (speed_divisor (tasflags w2))) 4 w2))
        else if command = 10 then
          (case read_filename (printf PromptSaveFile w1) of
             Inl f \<Rightarrow> Inl f
           | Inr (filename_buffer, w2) \<Rightarrow>
               (case first_frame_loop 0 (send filename_buffer 1024 w2) of
                  None \<Rightarrow> Inl LoopsForever
                | Some (first_frame, w3) \<Rightarrow> Inr (0, send (le_bytes 8 first_frame) 8 w3)))
        else if command = 11 then
          (case read_filename (printf PromptLoadFile w1) of
             Inl f \<Rightarrow> Inl f
           | Inr (filename_buffer, w2) \<Rightarrow>
               (case recv 1 (send filename_buffer 1024 w2) of
                  (got, w3) \<Rightarrow>
                    (let answer = (case got of [] \<Rightarrow> uninit_answer w3 | b # bs \<Rightarrow> b)
                     in if answer = 0 then Inr (0, printf LoadFailed w3) else Inr (0, w3))))
        else Inr (0, w1))"

section \<open>The main loop\<close>

text \<open>
  Lines 96 to 109: only a key press matters.  The frame-advance hotkey samples the
  keyboard and sets the pending command to 8; the play/pause hotkey negates
  \<open>running\<close>.  Both tests are made, in this order.
\<close>

fun handle_event :: "xevent \<Rightarrow> u32 \<times> world \<Rightarrow> u32 \<times> world" where
  "handle_event (KeyPress ks) (command, w) =
     (let (command1, w1) =
            (if ks = hotkeys w HOTKEY_FRAMEADVANCE then (8, XQueryKeymap w) else (command, w))
      in (command1,
          if ks = hotkeys w1 HOTKEY_PLAYPAUSE then set_running (\<not> running (tasflags w1)) w1
          else w1))"
| "handle_event OtherEvent (command, w) = (command, w)"

datatype loop_ctl = Break | Continue

text \<open>
  One iteration of \<^verbatim>\<open>while (1)\<close>, lines 84 to 121, given the events pending at that
  moment.  The sleep and the focus calls touch nothing of the state modelled here.
\<close>

definition loop_body :: "xevent list \<Rightarrow> u32 \<times> world \<Rightarrow> fault + (loop_ctl \<times> u32 \<times> world)" where
  "loop_body evs cw =
     (case fold handle_event evs cw of
        (command, w1) \<Rightarrow>
          (let w2 = (if running (tasflags w1) then XQueryKeymap w1 else w1)
           in case proceed_command command w2 of
                Inl f \<Rightarrow> Inl f
              | Inr (r, w3) \<Rightarrow>
                  (if r \<noteq> 0 then Inr (Break, command, w3)
                   else Inr (Continue, if running (tasflags w3) then 8 else 0, w3))))"

definition close_socket :: "world \<Rightarrow> world" where
  "close_socket w = w\<lparr>socket_open := False\<rparr>"

datatype loop_status = Exited | Looping

text \<open>
  The loop over the first iterations of a run, one list of pending events each; after a
  \<^verbatim>\<open>break\<close> the socket is closed and \<^verbatim>\<open>main\<close> returns.  \<open>Looping\<close> is the loop still
  going when the listed iterations are over.
\<close>

fun main_loop :: "xevent list list \<Rightarrow> u32 \<times> world \<Rightarrow> fault + (loop_status \<times> u32 \<times> world)" where
  "main_loop [] cw = Inr (Looping, cw)"
| "main_loop (evs # rest) cw =
     (case loop_body evs cw of
        Inl f \<Rightarrow> Inl f
      | Inr (Break, command, w) \<Rightarrow> Inr (Exited, command, close_socket w)
      | Inr (Continue, command, w) \<Rightarrow> main_loop rest (command, w))"

text \<open>
  Lines 78 to 80: the loop starts with no pending command, the default flags and the
  default hotkeys, both of which are declared outside this file.
\<close>

definition main_start :: "TasFlags \<Rightarrow> (hotkey \<Rightarrow> KeySym) \<Rightarrow> world \<Rightarrow> u32 \<times> world" where
  "main_start DEFAULTFLAGS default_hotkeys w =
     (0, w\<lparr>tasflags := DEFAULTFLAGS, hotkeys := default_hotkeys\<rparr>)"


section \<open>A concrete world\<close>

text \<open>
  A paused controller at frame 0 with divisor 1, no key down, nothing typed and nothing
  incoming; the two hotkeys are the key symbols of Pause and \<open>v\<close>.
\<close>

definition example_world :: world where
  "example_world =
     \<lparr>tasflags = \<lparr>running = False, speed_divisor = 1\<rparr>,
      frame_counter = 0,
      keyboard_state = replicate 32 0,
      hotkeys = (\<lambda>h. case h of HOTKEY_PLAYPAUSE \<Rightarrow> 0xff13 | HOTKEY_FRAMEADVANCE \<Rightarrow> 0x76),
      stdin = [], incoming = [], keymaps = [],
      uninit_filename_buffer = replicate 1024 0, uninit_answer = 0,
      socket_log = [], stdout = [], socket_open = True\<rparr>"

text \<open>The same world with the lines \<open>0\<close> and \<open>4\<close> typed on the terminal.\<close>

definition divisor_world :: world where
  "divisor_world = example_world\<lparr>stdin := [48, 10, 52, 10]\<rparr>"

text \<open>
  The same world with the file name \<open>x\<close> typed and the answer byte 0 waiting on the
  socket; and with a file name of 1024 times \<open>x\<close> instead.
\<close>

definition load_world :: world where
  "load_world = example_world\<lparr>stdin := [120, 10], incoming := [[0]]\<rparr>"

definition long_name_world :: world where
  "long_name_world = example_world\<lparr>stdin := replicate 1024 120 @ [10], incoming := [[0]]\<rparr>"

section \<open>Vocabulary for the prompts\<close>

text \<open>The file name that \<^verbatim>\<open>scanf("%s")\<close> reads from the input: the characters after
  the leading white space, up to the next white space.\<close>

definition typed_name :: "byte list \<Rightarrow> byte list" where
  "typed_name inp = takeWhile (\<lambda>x. \<not> isspace x) (dropWhile isspace inp)"

text \<open>What the next \<^verbatim>\<open>scanf("%d")\<close> would store, if anything.\<close>

definition next_entry :: "world \<Rightarrow> u32 option" where
  "next_entry w = fst (snd (scanf_d w))"

text \<open>
  The world inside case 9 after \<open>k\<close> passes through the body of its loop: the opcode
  has been sent (line 158), the divisor zeroed (line 174) and the prompt made \<open>k\<close>
  times (lines 177 and 178).
\<close>

definition case9_after :: "nat \<Rightarrow> world \<Rightarrow> world" where
  "case9_after k w = (speed_prompt ^^ k) (set_speed_divisor 0 (send (le_bytes 4 (9::u32)) 4 w))"

section \<open>The thread registry behind the overridden entry points\<close>

text \<open>
  \<^verbatim>\<open>src/libTAS/threadwrappers.h\<close> declares the overriding \<^verbatim>\<open>pthread_join\<close>,
  \<^verbatim>\<open>pthread_detach\<close> and the other entry points; their bodies are in a source file
  that is not part of the material at hand.  What they do to a thread's record is
  taken from sections 3 and 4.2 of the specification.
\<close>

text \<open>Modelled from the spec: the states of a ThreadRecord (section 3); the record's
  declaration is missing.\<close>

datatype thread_state = CREATED | RUNNING | WAITING | DETACHED | ZOMBIE | JOINED | CANCELLED

text \<open>Modelled from the spec: a ThreadRecord (section 3) with its state, its detached
  flag and the exit status it retains; the cancellation fields and the opaque start
  routine play no part in join and detach.  The declaration is missing.\<close>

record ThreadRecord =
  state :: thread_state
  detached :: bool
  exit_status :: int

text \<open>Modelled from the spec: the registry is a process-wide table from thread identity
  to record (section 4.2); the table's declaration is missing.\<close>

type_synonym thread_id = nat
type_synonym registry = "thread_id \<rightharpoonup> ThreadRecord"

text \<open>Modelled from the spec: the failures section 4.2 names (a duplicate
  registration, a join or detach that breaks the usage contract) and the failure of an
  operation on an identity the table does not hold; the bodies that return them are
  missing.\<close>

datatype registry_error = Duplicate | UsageContract | NoSuchThread

text \<open>Modelled from the spec: \<open>register(id, detachable)\<close> inserts a CREATED record and
  fails (duplicate) if the id is already present; the body is missing.\<close>

definition register :: "thread_id \<Rightarrow> bool \<Rightarrow> registry \<Rightarrow> registry_error + registry" where
  "register tid detachable r =
     (case r tid of
        Some t \<Rightarrow> Inl Duplicate
      | None \<Rightarrow> Inr (r(tid \<mapsto> \<lparr>state = CREATED, detached = False, exit_status = 0\<rparr>)))"

text \<open>Modelled from the spec: a record is live until its thread has returned (ZOMBIE)
  or has been joined (JOINED); the lifecycle of section 3, whose code is missing.\<close>

definition live :: "ThreadRecord \<Rightarrow> bool" where
  "live t \<longleftrightarrow> state t \<noteq> ZOMBIE \<and> state t \<noteq> JOINED"

text \<open>Modelled from the spec: \<open>mark_waiting(id)\<close>, called around suspension points; the
  body is missing.\<close>

definition mark_waiting :: "thread_id \<Rightarrow> registry \<Rightarrow> registry" where
  "mark_waiting tid r =
     (case r tid of
        Some t \<Rightarrow> if live t then r(tid \<mapsto> t\<lparr>state := WAITING\<rparr>) else r
      | None \<Rightarrow> r)"

text \<open>Modelled from the spec: \<open>mark_running(id)\<close>, called around suspension points; the
  body is missing.\<close>

definition mark_running :: "thread_id \<Rightarrow> registry \<Rightarrow> registry" where
  "mark_running tid r =
     (case r tid of
        Some t \<Rightarrow> if live t then r(tid \<mapsto> t\<lparr>state := RUNNING\<rparr>) else r
      | None \<Rightarrow> r)"

text \<open>Modelled from the spec: the return of a thread's function (lifecycle, section 3):
  the record becomes ZOMBIE if it is not detached and is removed if it is; the body of
  the overridden thread start and exit is missing.\<close>

definition thread_exit :: "thread_id \<Rightarrow> int \<Rightarrow> registry \<Rightarrow> registry" where
  "thread_exit tid status r =
     (case r tid of
        Some t \<Rightarrow>
          if \<not> live t then r
          else if detached t then r(tid := None)
          else r(tid \<mapsto> t\<lparr>state := ZOMBIE, exit_status := status\<rparr>)
      | None \<Rightarrow> r)"

text \<open>Modelled from the spec: \<open>detach(id)\<close> fails if the record is already joined or
  already detached; the body of the overriding \<^verbatim>\<open>pthread_detach\<close> is missing.\<close>

definition detach :: "thread_id \<Rightarrow> registry \<Rightarrow> registry_error + registry" where
  "detach tid r =
     (case r tid of
        None \<Rightarrow> Inl NoSuchThread
      | Some t \<Rightarrow>
          if state t = JOINED \<or> detached t then Inl UsageContract
          else if state t = ZOMBIE then Inr (r(tid \<mapsto> t\<lparr>detached := True\<rparr>))
          else Inr (r(tid \<mapsto> t\<lparr>detached := True, state := DETACHED\<rparr>)))"

text \<open>Modelled from the spec: \<open>join(id)\<close> fails if the record is already detached or
  already joined; on a ZOMBIE record it makes the record JOINED and returns the exit
  status; on any other record the caller stays blocked (no status yet, registry
  unchanged).  The body of the overriding \<^verbatim>\<open>pthread_join\<close> is missing.\<close>

definition join :: "thread_id \<Rightarrow> registry \<Rightarrow> registry_error + (int option \<times> registry)" where
  "join tid r =
     (case r tid of
        None \<Rightarrow> Inl NoSuchThread
      | Some t \<Rightarrow>
          if detached t \<or> state t = JOINED then Inl UsageContract
          else if state t = ZOMBIE then Inr (Some (exit_status t), r(tid \<mapsto> t\<lparr>state := JOINED\<rparr>))
          else Inr (None, r))"

text \<open>Modelled from the spec: the operations of section 4.2 and the lifecycle of
  section 3 as the steps of a run on the registry, a failing operation leaving the
  registry as it was; the callers are missing.\<close>

datatype registry_op =
    Register thread_id bool
  | MarkWaiting thread_id
  | MarkRunning thread_id
  | ThreadExit thread_id int
  | Detach thread_id
  | Join thread_id

fun apply_op :: "registry_op \<Rightarrow> registry \<Rightarrow> registry" where
  "apply_op (Register tid d) r = (case register tid d r of Inl e \<Rightarrow> r | Inr r' \<Rightarrow> r')"
| "apply_op (MarkWaiting tid) r = mark_waiting tid r"
| "apply_op (MarkRunning tid) r = mark_running tid r"
| "apply_op (ThreadExit tid st) r = thread_exit tid st r"
| "apply_op (Detach tid) r = (case detach tid r of Inl e \<Rightarrow> r | Inr r' \<Rightarrow> r')"
| "apply_op (Join tid) r = (case join tid r of Inl e \<Rightarrow> r | Inr (st, r') \<Rightarrow> r')"

text \<open>An identity on which join and detach can no more succeed: its record is gone,
  detached or joined.\<close>

definition spent :: "thread_id \<Rightarrow> registry \<Rightarrow> bool" where
  "spent tid r \<longleftrightarrow> (case r tid of None \<Rightarrow> True | Some t \<Rightarrow> detached t \<or> state t = JOINED)"

text \<open>A registry with one thread that has returned with status 3, and the same after
  that thread has been joined or detached.\<close>

definition one_thread :: registry where
  "one_thread = Map.empty(7 \<mapsto> \<lparr>state = ZOMBIE, detached = False, exit_status = 3\<rparr>)"

definition joined_thread :: registry where
  "joined_thread = Map.empty(7 \<mapsto> \<lparr>state = JOINED, detached = False, exit_status = 3\<rparr>)"

definition detached_thread :: registry where
  "detached_thread = Map.empty(7 \<mapsto> \<lparr>state = ZOMBIE, detached = True, exit_status = 3\<rparr>)"

section \<open>Facts about the byte encoding\<close>

lemma length_le_bytes: "length (le_bytes n w) = n"
  by (induction n arbitrary: w) simp_all

lemma ucast_byte: "(ucast (ucast (w::'a::len word) :: byte) :: 'a word) = take_bit 8 w"
  by (rule bit_word_eqI) (auto simp add: bit_simps)

lemma take_bit_low_byte_split:
  "take_bit 8 (w::'a::len word) + push_bit 8 (take_bit (8 * n) (drop_bit 8 w))
     = take_bit (8 + 8 * n) w"
proof -
  have "take_bit 8 w + push_bit 8 (take_bit (8 * n) (drop_bit 8 w)) =
        take_bit 8 w OR push_bit 8 (take_bit (8 * n) (drop_bit 8 w))"
    by (rule disjunctive_add) (auto simp add: bit_simps)
  also have "\<dots> = take_bit (8 + 8 * n) w"
    by (rule bit_word_eqI) (auto simp add: bit_simps)
  finally show ?thesis .
qed

lemma le_word_le_bytes_take_bit:
  "(le_word (le_bytes n w) :: 'a::len word) = take_bit (8 * n) w"
proof (induction n arbitrary: w)
  case 0
  show ?case by simp
next
  case (Suc n)
  show ?case
    using take_bit_low_byte_split [of w n] by (simp add: Suc ucast_byte)
qed

lemma le_word_le_bytes_u64: "le_word (le_bytes 8 (w::u64)) = w"
  by (simp add: le_word_le_bytes_take_bit take_bit_word_eq_self)

lemma overwrite_Nil [simp]: "overwrite [] old = old"
  by (simp add: overwrite_def)

lemma overwrite_all: "length old \<le> length new \<Longrightarrow> overwrite new old = new"
  by (simp add: overwrite_def)

section \<open>Facts about the two prompting loops\<close>

declare speed_loop.simps [code]
declare first_frame_loop.simps [code]

lemma speed_prompt_keeps:
  "frame_counter (speed_prompt w) = frame_counter w"
  "socket_log (speed_prompt w) = socket_log w"
  "running (tasflags (speed_prompt w)) = running (tasflags w)"
  "keyboard_state (speed_prompt w) = keyboard_state w"
  "incoming (speed_prompt w) = incoming w"
  "socket_open (speed_prompt w) = socket_open w"
  by (auto simp: speed_prompt_def scanf_d_def printf_def set_speed_divisor_def
           split: prod.splits option.splits)

lemma speed_loop_sound:
  "speed_loop w = Some w' \<Longrightarrow>
     speed_divisor (tasflags w') \<noteq> 0 \<and> frame_counter w' = frame_counter w
     \<and> socket_log w' = socket_log w \<and> running (tasflags w') = running (tasflags w)
     \<and> keyboard_state w' = keyboard_state w \<and> incoming w' = incoming w
     \<and> socket_open w' = socket_open w"
proof (induction w w' rule: speed_loop.raw_induct[rotated 1, consumes 1])
  case (1 f w w')
  show ?case
  proof (cases "speed_divisor (tasflags (speed_prompt w)) = 0")
    case True
    with 1 have "f (speed_prompt w) = Some w'" by (simp add: Let_def)
    from 1(1)[OF this] show ?thesis by (simp add: speed_prompt_keeps)
  next
    case False
    with 1 have "w' = speed_prompt w" by (simp add: Let_def)
    with False show ?thesis by (simp add: speed_prompt_keeps)
  qed
qed

lemma scanf_lu_keeps:
  "scanf_lu w = (r, v, w') \<Longrightarrow>
     frame_counter w' = frame_counter w \<and> socket_log w' = socket_log w
     \<and> tasflags w' = tasflags w \<and> keyboard_state w' = keyboard_state w
     \<and> incoming w' = incoming w \<and> socket_open w' = socket_open w"
  by (auto simp: scanf_lu_def split: prod.splits option.splits)

lemma first_frame_loop_sound:
  "first_frame_loop ff w = Some (ff', w') \<Longrightarrow>
     frame_counter w' = frame_counter w \<and> socket_log w' = socket_log w
     \<and> tasflags w' = tasflags w \<and> keyboard_state w' = keyboard_state w
     \<and> incoming w' = incoming w \<and> socket_open w' = socket_open w"
proof -
  have "first_frame_loop ff w = Some p \<Longrightarrow>
     frame_counter (snd p) = frame_counter w \<and> socket_log (snd p) = socket_log w
     \<and> tasflags (snd p) = tasflags w \<and> keyboard_state (snd p) = keyboard_state w
     \<and> incoming (snd p) = incoming w \<and> socket_open (snd p) = socket_open w" for p
  proof (induction ff w p rule: first_frame_loop.raw_induct[rotated 1, consumes 1])
    case (1 f ff w p)
    obtain r v w1 where sc: "scanf_lu (printf PromptFirstFrame w) = (r, v, w1)"
      by (cases "scanf_lu (printf PromptFirstFrame w)") auto
    from scanf_lu_keeps [OF sc]
    have keep: "frame_counter w1 = frame_counter w" "socket_log w1 = socket_log w"
      "tasflags w1 = tasflags w" "keyboard_state w1 = keyboard_state w"
      "incoming w1 = incoming w" "socket_open w1 = socket_open w"
      by (simp_all add: printf_def)
    show ?case
    proof (cases "r = 0")
      case True
      with 1(2) sc have "f (case v of None \<Rightarrow> ff | Some x \<Rightarrow> x) w1 = Some p" by simp
      from 1(1)[OF this] keep show ?thesis by simp
    next
      case False
      with 1(2) sc have "snd p = w1" by auto
      with keep show ?thesis by simp
    qed
  qed
  from this [of "(ff', w')"] show "first_frame_loop ff w = Some (ff', w') \<Longrightarrow> ?thesis"
    by simp
qed

lemma read_filename_keeps:
  "read_filename w = Inr (fb, w') \<Longrightarrow>
     frame_counter w' = frame_counter w \<and> socket_log w' = socket_log w
     \<and> tasflags w' = tasflags w \<and> keyboard_state w' = keyboard_state w
     \<and> incoming w' = incoming w \<and> socket_open w' = socket_open w
     \<and> stdout w' = stdout w \<and> uninit_answer w' = uninit_answer w"
  by (auto simp: read_filename_def scanf_s_def split: list.splits if_splits)

lemma recv_keeps:
  "recv n w = (got, w') \<Longrightarrow>
     frame_counter w' = frame_counter w \<and> tasflags w' = tasflags w
     \<and> keyboard_state w' = keyboard_state w \<and> socket_open w' = socket_open w
     \<and> stdout w' = stdout w \<and> uninit_answer w' = uninit_answer w
     \<and> socket_log w' = socket_log w @ [Received n got]
     \<and> got = (case incoming w of [] \<Rightarrow> [] | r # rs \<Rightarrow> take n r)"
  by (auto simp: recv_def split: list.splits)


section \<open>Facts about \<^verbatim>\<open>proceed_command\<close> and the loop body\<close>

lemma proceed_command_frame_counter:
  assumes "proceed_command c w = Inr (r, w')" and "c \<noteq> 8"
  shows "frame_counter w' = frame_counter w"
proof -
  let ?w1 = "send (le_bytes 4 c) 4 w"
  have w1: "frame_counter ?w1 = frame_counter w" by (simp add: send_def)
  consider "c = 0" | "11 < c" | "c = 7" | "c = 9" | "c = 10" | "c = 11"
    | "c \<noteq> 0" "\<not> 11 < c" "c \<noteq> 7" "c \<noteq> 9" "c \<noteq> 10" "c \<noteq> 11"
    by blast
  then show ?thesis
  proof cases
    case 1 with assms show ?thesis by (simp add: proceed_command_def)
  next
    case 2
    then have "c \<noteq> 0" by auto
    with 2 assms show ?thesis by (auto simp: proceed_command_def printf_def)
  next
    case 3 with assms show ?thesis by (auto simp: proceed_command_def set_running_def send_def)
  next
    case 4
    with assms obtain w2 where l: "speed_loop (set_speed_divisor 0 ?w1) = Some w2"
      and w': "w' = send (le_bytes 4 (speed_divisor (tasflags w2))) 4 w2"
      by (auto simp: proceed_command_def Let_def split: option.splits)
    from speed_loop_sound [OF l] w' show ?thesis
      by (simp add: send_def set_speed_divisor_def)
  next
    case 5
    with assms obtain fb w2 ff w3 where
      rf: "read_filename (printf PromptSaveFile ?w1) = Inr (fb, w2)"
      and l: "first_frame_loop 0 (send fb 1024 w2) = Some (ff, w3)"
      and w': "w' = send (le_bytes 8 ff) 8 w3"
      by (auto simp: proceed_command_def Let_def split: option.splits sum.splits)
    from read_filename_keeps [OF rf] first_frame_loop_sound [OF l] w' show ?thesis
      by (simp add: send_def printf_def)
  next
    case 6
    with assms obtain fb w2 got w3 where
      rf: "read_filename (printf PromptLoadFile ?w1) = Inr (fb, w2)"
      and rc: "recv 1 (send fb 1024 w2) = (got, w3)"
      and w': "w' = w3 \<or> w' = printf LoadFailed w3"
      by (auto simp: proceed_command_def Let_def split: option.splits sum.splits prod.splits if_splits)
    from read_filename_keeps [OF rf] recv_keeps [OF rc] w' show ?thesis
      by (auto simp add: send_def printf_def)
  next
    case 7 with assms show ?thesis by (auto simp: proceed_command_def Let_def send_def)
  qed
qed


lemma XQueryKeymap_keeps:
  "frame_counter (XQueryKeymap w) = frame_counter w"
  "socket_log (XQueryKeymap w) = socket_log w"
  "tasflags (XQueryKeymap w) = tasflags w"
  "hotkeys (XQueryKeymap w) = hotkeys w"
  "incoming (XQueryKeymap w) = incoming w"
  "socket_open (XQueryKeymap w) = socket_open w"
  "stdout (XQueryKeymap w) = stdout w"
  by (auto simp: XQueryKeymap_def split: list.splits)

lemma handle_event_keeps:
  "handle_event e (c, w) = (c', w') \<Longrightarrow>
     frame_counter w' = frame_counter w \<and> socket_log w' = socket_log w
     \<and> hotkeys w' = hotkeys w \<and> incoming w' = incoming w
     \<and> socket_open w' = socket_open w \<and> stdout w' = stdout w
     \<and> c' = (if e = KeyPress (hotkeys w HOTKEY_FRAMEADVANCE) then 8 else c)"
  by (cases e) (auto simp: XQueryKeymap_keeps set_running_def Let_def split: if_splits)

lemma fold_handle_event_keeps:
  "fold handle_event evs (c, w) = (c', w') \<Longrightarrow>
     frame_counter w' = frame_counter w \<and> socket_log w' = socket_log w
     \<and> hotkeys w' = hotkeys w \<and> incoming w' = incoming w
     \<and> socket_open w' = socket_open w \<and> stdout w' = stdout w
     \<and> c' = (if KeyPress (hotkeys w HOTKEY_FRAMEADVANCE) \<in> set evs then 8 else c)"
proof (induction evs arbitrary: c w)
  case Nil
  then show ?case by simp
next
  case (Cons e evs)
  obtain c1 w1 where h: "handle_event e (c, w) = (c1, w1)"
    by (cases "handle_event e (c, w)") auto
  with Cons.prems have "fold handle_event evs (c1, w1) = (c', w')" by simp
  from Cons.IH [OF this] handle_event_keeps [OF h] show ?case by auto
qed

lemma proceed_command_8:
  "proceed_command 8 w =
     (case recv 8 (send (keyboard_state w) 32 (send (le_bytes 4 (8::u32)) 4 w)) of
        (got, w3) \<Rightarrow>
          Inr (0, w3\<lparr>frame_counter := le_word (overwrite got (le_bytes 8 (frame_counter w3)))\<rparr>))"
  by (simp add: proceed_command_def Let_def send_def)

lemma proceed_command_8_result:
  "\<exists>w'. proceed_command 8 w = Inr (0, w')
     \<and> socket_log w' = socket_log w @
          [Sent (le_bytes 4 (8::u32)), Sent (take 32 (keyboard_state w)),
           Received 8 (case incoming w of [] \<Rightarrow> [] | r # rs \<Rightarrow> take 8 r)]
     \<and> frame_counter w' =
          le_word (overwrite (case incoming w of [] \<Rightarrow> [] | r # rs \<Rightarrow> take 8 r)
                     (le_bytes 8 (frame_counter w)))
     \<and> tasflags w' = tasflags w \<and> socket_open w' = socket_open w"
proof -
  let ?w2 = "send (keyboard_state w) 32 (send (le_bytes 4 (8::u32)) 4 w)"
  obtain got w3 where rc: "recv 8 ?w2 = (got, w3)" by (cases "recv 8 ?w2") auto
  from recv_keeps [OF rc] show ?thesis
    by (simp add: proceed_command_8 rc) (simp add: send_def length_le_bytes)
qed

lemma proceed_command_returns_0:
  "proceed_command c w = Inr (r, w') \<Longrightarrow> r = 0"
  by (auto simp: proceed_command_def Let_def split: if_splits option.splits sum.splits prod.splits)

lemma le_bytes_4:
  "le_bytes 4 w = [ucast w, ucast (drop_bit 8 w), ucast (drop_bit 16 w), ucast (drop_bit 24 w)]"
proof -
  have "le_bytes 4 w = le_bytes (Suc (Suc (Suc (Suc 0)))) w" by (simp add: numeral_eq_Suc)
  then show ?thesis by (simp add: drop_bit_drop_bit del: le_bytes.simps(2)) (simp add: drop_bit_drop_bit)
qed

lemma le_bytes_opcode: "le_bytes 4 (8::u32) = [8, 0, 0, 0]"
  by (simp add: le_bytes_4)

lemma loop_body_unfold:
  assumes "loop_body evs (c, w) = Inr (ctl, c', w')"
  obtains c1 w1 r where "fold handle_event evs (c, w) = (c1, w1)"
    and "proceed_command c1 (if running (tasflags w1) then XQueryKeymap w1 else w1) = Inr (r, w')"
    and "ctl = Continue" and "c' = (if running (tasflags w') then 8 else 0)"
proof -
  obtain c1 w1 where f: "fold handle_event evs (c, w) = (c1, w1)"
    by (cases "fold handle_event evs (c, w)") auto
  let ?w2 = "if running (tasflags w1) then XQueryKeymap w1 else w1"
  from assms f obtain r w3 where p: "proceed_command c1 ?w2 = Inr (r, w3)"
    by (auto simp: loop_body_def Let_def split: sum.splits)
  from proceed_command_returns_0 [OF p] have "r = 0" .
  with assms f p have "ctl = Continue" "w' = w3" "c' = (if running (tasflags w') then 8 else 0)"
    by (auto simp: loop_body_def Let_def)
  with f p that show thesis by blast
qed

lemma loop_body_example_8:
  "loop_body [] (8, example_world) =
     Inr (Continue, 0,
          example_world\<lparr>socket_log := [Sent [8, 0, 0, 0], Sent (replicate 32 0), Received 8 []]\<rparr>)"
  by (simp add: loop_body_def proceed_command_8 recv_def send_def example_world_def
        le_word_le_bytes_u64 le_bytes_opcode)

lemma loop_body_sends_8:
  assumes "fold handle_event evs (c, w) = (8, w1)"
  shows "\<exists>c'' w'' ks got. loop_body evs (c, w) = Inr (Continue, c'', w'')
     \<and> socket_log w'' = socket_log w @ [Sent (le_bytes 4 (8::u32)), Sent ks, Received 8 got]"
proof -
  let ?w2 = "if running (tasflags w1) then XQueryKeymap w1 else w1"
  from fold_handle_event_keeps [OF assms] have log: "socket_log ?w2 = socket_log w"
    by (simp add: XQueryKeymap_keeps)
  from proceed_command_8_result [of ?w2] obtain w3 ks got where
    p: "proceed_command 8 ?w2 = Inr (0, w3)"
    and l3: "socket_log w3 = socket_log ?w2 @ [Sent (le_bytes 4 (8::u32)), Sent ks, Received 8 got]"
    by blast
  from assms p have "loop_body evs (c, w) = Inr (Continue, if running (tasflags w3) then 8 else 0, w3)"
    by (simp add: loop_body_def Let_def)
  with l3 log show ?thesis by metis
qed

lemma loop_body_sends_nothing:
  assumes "fold handle_event evs (c, w) = (0, w1)"
  shows "\<exists>c'' w''. loop_body evs (c, w) = Inr (Continue, c'', w'')
     \<and> socket_log w'' = socket_log w"
proof -
  let ?w2 = "if running (tasflags w1) then XQueryKeymap w1 else w1"
  from fold_handle_event_keeps [OF assms] have log: "socket_log ?w2 = socket_log w"
    by (simp add: XQueryKeymap_keeps)
  have "proceed_command 0 ?w2 = Inr (0, ?w2)" by (simp add: proceed_command_def)
  with assms have "loop_body evs (c, w) = Inr (Continue, if running (tasflags ?w2) then 8 else 0, ?w2)"
    by (simp add: loop_body_def Let_def)
  with log show ?thesis by metis
qed

lemma loop_body_example_paused:
  "loop_body [] (0, example_world) = Inr (Continue, 0, example_world)"
  by (simp add: loop_body_def proceed_command_def example_world_def)

lemma loop_body_example_play:
  "loop_body [KeyPress 0xff13] (0, example_world) =
     Inr (Continue, 8, set_running True example_world)"
  by (simp add: loop_body_def proceed_command_def example_world_def set_running_def
        XQueryKeymap_def)

lemma speed_loop_step:
  "speed_divisor (tasflags (speed_prompt w)) = 0 \<Longrightarrow> speed_loop w = speed_loop (speed_prompt w)"
  by (subst speed_loop.simps) (simp add: Let_def)

lemma speed_loop_stop:
  "speed_divisor (tasflags (speed_prompt w)) \<noteq> 0 \<Longrightarrow> speed_loop w = Some (speed_prompt w)"
  by (subst speed_loop.simps) (simp add: Let_def)

lemma speed_loop_returns_at:
  assumes "\<forall>j<k. speed_divisor (tasflags ((speed_prompt ^^ Suc j) w)) = 0"
    and "speed_divisor (tasflags ((speed_prompt ^^ Suc k) w)) \<noteq> 0"
  shows "speed_loop w = Some ((speed_prompt ^^ Suc k) w)"
  using assms
proof (induction k arbitrary: w)
  case 0
  then show ?case by (simp add: speed_loop_stop)
next
  case (Suc k)
  from Suc.prems(1) have z: "speed_divisor (tasflags (speed_prompt w)) = 0"
    by (auto dest: spec [of _ 0])
  have "\<forall>j<k. speed_divisor (tasflags ((speed_prompt ^^ Suc j) (speed_prompt w))) = 0"
  proof (intro allI impI)
    fix j assume "j < k"
    then have "Suc j < Suc k" by simp
    from Suc.prems(1) [rule_format, OF this]
    show "speed_divisor (tasflags ((speed_prompt ^^ Suc j) (speed_prompt w))) = 0"
      by (simp add: funpow_swap1)
  qed
  moreover from Suc.prems(2)
  have "speed_divisor (tasflags ((speed_prompt ^^ Suc k) (speed_prompt w))) \<noteq> 0"
    by (simp add: funpow_swap1)
  ultimately have "speed_loop (speed_prompt w) = Some ((speed_prompt ^^ Suc k) (speed_prompt w))"
    by (rule Suc.IH)
  with speed_loop_step [OF z] show ?case
    by (simp add: funpow_swap1)
qed

lemma speed_loop_Some_iterate:
  "speed_loop w = Some w' \<Longrightarrow>
     \<exists>k. w' = (speed_prompt ^^ Suc k) w
       \<and> (\<forall>j<k. speed_divisor (tasflags ((speed_prompt ^^ Suc j) w)) = 0)
       \<and> speed_divisor (tasflags w') \<noteq> 0"
proof (induction w w' rule: speed_loop.raw_induct[rotated 1, consumes 1])
  case (1 f w w')
  show ?case
  proof (cases "speed_divisor (tasflags (speed_prompt w)) = 0")
    case True
    with 1 have "f (speed_prompt w) = Some w'" by (simp add: Let_def)
    from 1(1)[OF this] obtain k where
      k: "w' = (speed_prompt ^^ Suc k) (speed_prompt w)"
        "\<forall>j<k. speed_divisor (tasflags ((speed_prompt ^^ Suc j) (speed_prompt w))) = 0"
        "speed_divisor (tasflags w') \<noteq> 0"
      by blast
    have "w' = (speed_prompt ^^ Suc (Suc k)) w"
      using k(1) by (simp add: funpow_swap1)
    moreover have "\<forall>j<Suc k. speed_divisor (tasflags ((speed_prompt ^^ Suc j) w)) = 0"
    proof (intro allI impI)
      fix j assume j: "j < Suc k"
      show "speed_divisor (tasflags ((speed_prompt ^^ Suc j) w)) = 0"
      proof (cases j)
        case 0
        with True show ?thesis by simp
      next
        case (Suc i)
        with j k(2) have "speed_divisor (tasflags ((speed_prompt ^^ Suc i) (speed_prompt w))) = 0"
          by simp
        with Suc show ?thesis by (simp add: funpow_swap1)
      qed
    qed
    ultimately show ?thesis using k(3) by blast
  next
    case False
    with 1 have "w' = speed_prompt w" by (simp add: Let_def)
    with False have "w' = (speed_prompt ^^ Suc 0) w
       \<and> (\<forall>j<0. speed_divisor (tasflags ((speed_prompt ^^ Suc j) w)) = 0)
       \<and> speed_divisor (tasflags w') \<noteq> 0"
      by simp
    then show ?thesis by blast
  qed
qed

lemma next_entry_speed_prompt:
  "next_entry w = Some v \<Longrightarrow> speed_divisor (tasflags (speed_prompt w)) = v"
  by (auto simp: next_entry_def speed_prompt_def scanf_d_def printf_def set_speed_divisor_def
        split: prod.splits option.splits)

lemma proceed_command_9:
  "proceed_command 9 w =
     (case speed_loop (set_speed_divisor 0 (send (le_bytes 4 (9::u32)) 4 w)) of
        None \<Rightarrow> Inl LoopsForever
      | Some w2 \<Rightarrow> Inr (0, send (le_bytes 4 (speed_divisor (tasflags w2))) 4 w2))"
  by (simp add: proceed_command_def Let_def)

lemma funpow_speed_prompt_keeps:
  "socket_log ((speed_prompt ^^ k) w) = socket_log w"
  "frame_counter ((speed_prompt ^^ k) w) = frame_counter w"
  by (induction k) (simp_all add: speed_prompt_keeps)

lemma speed_prompt_stdout: "stdout (speed_prompt w) = stdout w @ [PromptSpeed]"
  by (auto simp: speed_prompt_def scanf_d_def printf_def set_speed_divisor_def
        split: prod.splits option.splits)

lemma funpow_speed_prompt_stdout:
  "stdout ((speed_prompt ^^ k) w) = stdout w @ replicate k PromptSpeed"
  by (induction k) (simp_all add: speed_prompt_stdout replicate_append_same)

lemma proceed_command_11:
  "proceed_command 11 w =
     (case read_filename (printf PromptLoadFile (send (le_bytes 4 (11::u32)) 4 w)) of
        Inl f \<Rightarrow> Inl f
      | Inr (filename_buffer, w2) \<Rightarrow>
          (case recv 1 (send filename_buffer 1024 w2) of
             (got, w3) \<Rightarrow>
               (let answer = (case got of [] \<Rightarrow> uninit_answer w3 | b # bs \<Rightarrow> b)
                in if answer = 0 then Inr (0, printf LoadFailed w3) else Inr (0, w3))))"
  by (simp add: proceed_command_def Let_def)

lemma scanf_s_name:
  assumes "dropWhile isspace (stdin w) = s" and "s \<noteq> []"
  shows "scanf_s w = (1, Some (takeWhile (\<lambda>x. \<not> isspace x) s @ [0]),
                      w\<lparr>stdin := dropWhile (\<lambda>x. \<not> isspace x) s\<rparr>)"
  using assms by (cases s) (simp_all add: scanf_s_def)

lemma read_filename_fits:
  assumes "length (typed_name inp) < 1024" and "stdin w = inp"
    and "uninit_filename_buffer w = buf"
  shows "\<exists>w'. read_filename w =
       Inr (if dropWhile isspace inp = [] then buf else overwrite (typed_name inp @ [0]) buf, w')"
proof (cases "dropWhile isspace inp")
  case Nil
  with assms show ?thesis
    by (simp add: read_filename_def scanf_s_def del: dropWhile_eq_Nil_conv)
next
  case (Cons c cs)
  with assms show ?thesis
    by (simp add: read_filename_def scanf_s_def typed_name_def del: dropWhile_eq_Nil_conv)
qed

lemma load_failure_changes_nothing:
  assumes "length (typed_name (stdin w)) < 1024"
    and "incoming w = (0 # tl_bytes) # rs"
  shows "\<exists>w'. proceed_command 11 w = Inr (0, w')
     \<and> tasflags w' = tasflags w \<and> frame_counter w' = frame_counter w
     \<and> keyboard_state w' = keyboard_state w \<and> socket_open w' = socket_open w
     \<and> socket_log w' = socket_log w @
          [Sent (le_bytes 4 (11::u32)),
           Sent (take 1024
              (if dropWhile isspace (stdin w) = [] then uninit_filename_buffer w
               else overwrite (typed_name (stdin w) @ [0]) (uninit_filename_buffer w))),
           Received 1 [0]]
     \<and> stdout w' = stdout w @ [PromptLoadFile, LoadFailed]"
proof -
  let ?w1 = "printf PromptLoadFile (send (le_bytes 4 (11::u32)) 4 w)"
  let ?fb = "if dropWhile isspace (stdin w) = [] then uninit_filename_buffer w
               else overwrite (typed_name (stdin w) @ [0]) (uninit_filename_buffer w)"
  have same: "stdin ?w1 = stdin w" "uninit_filename_buffer ?w1 = uninit_filename_buffer w"
    by (simp_all add: printf_def send_def)
  from read_filename_fits [OF assms(1) same] obtain w2 where
    rf: "read_filename ?w1 = Inr (?fb, w2)" by blast
  obtain got w3 where rc: "recv 1 (send ?fb 1024 w2) = (got, w3)"
    by (cases "recv 1 (send ?fb 1024 w2)") auto
  from read_filename_keeps [OF rf] assms(2) have "incoming (send ?fb 1024 w2) = (0 # tl_bytes) # rs"
    by (simp add: send_def printf_def)
  with recv_keeps [OF rc] have got: "got = [0]" by simp
  with rf rc have p: "proceed_command 11 w = Inr (0, printf LoadFailed w3)"
    by (simp add: proceed_command_11)
  from read_filename_keeps [OF rf] recv_keeps [OF rc] got
  have "tasflags w3 = tasflags w" "frame_counter w3 = frame_counter w"
    "keyboard_state w3 = keyboard_state w" "socket_open w3 = socket_open w"
    "socket_log w3 = socket_log w @ [Sent (le_bytes 4 (11::u32)), Sent (take 1024 ?fb), Received 1 [0]]"
    "stdout w3 = stdout w @ [PromptLoadFile]"
    by (simp_all add: send_def printf_def length_le_bytes)
  with p show ?thesis by (simp add: printf_def)
qed

lemma load_failure_example:
  "\<exists>w'. proceed_command 11 load_world = Inr (0, w')
     \<and> tasflags w' = \<lparr>running = False, speed_divisor = 1\<rparr> \<and> frame_counter w' = 0
     \<and> stdout w' = [PromptLoadFile, LoadFailed]"
proof -
  have a: "length (typed_name (stdin load_world)) < 1024"
    by (simp add: load_world_def typed_name_def isspace_def)
  have b: "incoming load_world = (0 # []) # []"
    by (simp add: load_world_def)
  from load_failure_changes_nothing [OF a b] obtain w' where
    "proceed_command 11 load_world = Inr (0, w')" "tasflags w' = tasflags load_world"
    "frame_counter w' = frame_counter load_world"
    "stdout w' = stdout load_world @ [PromptLoadFile, LoadFailed]"
    by blast
  then show ?thesis
    by (simp add: load_world_def example_world_def)
qed

lemma long_name_input:
  "dropWhile isspace (replicate 1024 120 @ [10]) = replicate 1024 120 @ [10]"
  "takeWhile (\<lambda>x. \<not> isspace x) (replicate 1024 120 @ [10]) = replicate 1024 120"
proof -
  have c: "\<not> isspace 120" "isspace 10" by (simp_all add: isspace_def)
  show "dropWhile isspace (replicate 1024 120 @ [10]) = replicate 1024 120 @ [10]"
    using c by (simp add: dropWhile_append1 [where x = 120])
  have "takeWhile (\<lambda>x. \<not> isspace x) (replicate 1024 120 @ [10])
      = replicate 1024 120 @ takeWhile (\<lambda>x. \<not> isspace x) [10]"
    by (rule takeWhile_append2) (simp add: c)
  with c show "takeWhile (\<lambda>x. \<not> isspace x) (replicate 1024 120 @ [10]) = replicate 1024 120"
    by simp
qed

lemma divisor_world_passes:
  "next_entry (case9_after 0 divisor_world) = Some 0"
  "speed_divisor (tasflags (case9_after 0 divisor_world)) = 0"
  "speed_divisor (tasflags (case9_after (Suc 0) divisor_world)) = 0"
  "speed_divisor (tasflags (case9_after (Suc (Suc 0)) divisor_world)) = 4"
  by (simp_all add: case9_after_def next_entry_def speed_prompt_def scanf_d_def scan_integer_def
        isspace_def isdigit_def decimal_def strtol_def printf_def send_def set_speed_divisor_def
        divisor_world_def example_world_def)

lemma divisor_world_logs:
  "socket_log divisor_world = []" "stdout divisor_world = []"
  by (simp_all add: divisor_world_def example_world_def)

lemma speed_loop_skip:
  "(\<forall>j<k. speed_divisor (tasflags ((speed_prompt ^^ Suc j) w)) = 0) \<Longrightarrow>
     speed_loop w = speed_loop ((speed_prompt ^^ k) w)"
proof (induction k)
  case 0
  show ?case by simp
next
  case (Suc k)
  then have "speed_loop w = speed_loop ((speed_prompt ^^ k) w)" by simp
  moreover from Suc.prems have "speed_divisor (tasflags (speed_prompt ((speed_prompt ^^ k) w))) = 0"
    by simp
  ultimately show ?case by (simp add: speed_loop_step)
qed

section \<open>Facts about the thread registry\<close>

lemma spent_apply_op:
  assumes "spent tid r" and "\<forall>d. op \<noteq> Register tid d"
  shows "spent tid (apply_op op r)"
  using assms
  by (cases op)
     (auto simp: spent_def register_def mark_waiting_def mark_running_def thread_exit_def
        detach_def join_def live_def split: option.splits if_splits)

lemma spent_fold:
  assumes "spent tid r" and "\<forall>d. Register tid d \<notin> set ops"
  shows "spent tid (fold apply_op ops r)"
  using assms
proof (induction ops arbitrary: r)
  case Nil
  then show ?case by simp
next
  case (Cons op ops)
  from Cons.prems have "spent tid (apply_op op r)" by (intro spent_apply_op) auto
  with Cons show ?case by simp
qed

lemma spent_refuses: "spent tid r \<Longrightarrow> isl (detach tid r) \<and> isl (join tid r)"
  by (auto simp: spent_def detach_def join_def split: option.splits)

lemma detach_then:
  "detach tid r = Inr r' \<Longrightarrow>
     detach tid r' = Inl UsageContract \<and> join tid r' = Inl UsageContract \<and> spent tid r'"
  by (auto simp: detach_def join_def spent_def split: option.splits if_splits)

lemma join_then:
  "join tid r = Inr (Some st, r') \<Longrightarrow>
     detach tid r' = Inl UsageContract \<and> join tid r' = Inl UsageContract \<and> spent tid r'"
  by (auto simp: detach_def join_def spent_def split: option.splits if_splits)

section \<open>The claims\<close>

text \<open>
  C1.  The frame counter changes only through an advance whose response arrives.
  A processed command other than 8 leaves \<open>frame_counter\<close> as it was; and an iteration
  of the main loop leaves it as it was unless that iteration made the opcode-8 exchange
  (opcode, keyboard snapshot, receive of 8) and the receive stored at least one byte.
\<close>

theorem frame_counter_only_advance:
  "(proceed_command c w = Inr (r, w') \<and> c \<noteq> 8 \<longrightarrow> frame_counter w' = frame_counter w)
   \<and> (loop_body evs (c, w) = Inr (ctl, c', w'')
        \<and> (\<nexists>ks bs. bs \<noteq> [] \<and>
              socket_log w'' = socket_log w @ [Sent (le_bytes 4 (8::u32)), Sent ks, Received 8 bs])
       \<longrightarrow> frame_counter w'' = frame_counter w)"
proof (intro conjI impI)
  assume "proceed_command c w = Inr (r, w') \<and> c \<noteq> 8"
  then show "frame_counter w' = frame_counter w"
    using proceed_command_frame_counter by blast
next
  assume a: "loop_body evs (c, w) = Inr (ctl, c', w'')
    \<and> (\<nexists>ks bs. bs \<noteq> [] \<and>
              socket_log w'' = socket_log w @ [Sent (le_bytes 4 (8::u32)), Sent ks, Received 8 bs])"
  then obtain c1 w1 r1 where f: "fold handle_event evs (c, w) = (c1, w1)"
    and p: "proceed_command c1 (if running (tasflags w1) then XQueryKeymap w1 else w1) = Inr (r1, w'')"
    by (auto elim: loop_body_unfold)
  let ?w2 = "if running (tasflags w1) then XQueryKeymap w1 else w1"
  from fold_handle_event_keeps [OF f]
  have w2: "frame_counter ?w2 = frame_counter w" "socket_log ?w2 = socket_log w"
    by (simp_all add: XQueryKeymap_keeps)
  show "frame_counter w'' = frame_counter w"
  proof (cases "c1 = 8")
    case False
    from proceed_command_frame_counter [OF p False] w2 show ?thesis by simp
  next
    case True
    let ?got = "case incoming ?w2 of [] \<Rightarrow> [] | r # rs \<Rightarrow> take 8 r"
    from proceed_command_8_result [of ?w2] p True
    have log: "socket_log w'' = socket_log ?w2 @
          [Sent (le_bytes 4 (8::u32)), Sent (take 32 (keyboard_state ?w2)), Received 8 ?got]"
      and fc: "frame_counter w'' = le_word (overwrite ?got (le_bytes 8 (frame_counter ?w2)))"
      by auto
    from a log w2 have "?got = []" by metis
    with fc w2 show ?thesis by (simp add: le_word_le_bytes_u64)
  qed
qed

theorem frame_counter_only_advance_witness:
  "proceed_command 7 example_world =
     Inr (0, set_running True (send (le_bytes 4 (7::u32)) 4 example_world))
   \<and> (7::u32) \<noteq> 8
   \<and> frame_counter (set_running True (send (le_bytes 4 (7::u32)) 4 example_world))
       = frame_counter example_world
   \<and> loop_body [] (8, example_world) =
       Inr (Continue, 0,
          example_world\<lparr>socket_log := [Sent [8, 0, 0, 0], Sent (replicate 32 0), Received 8 []]\<rparr>)
   \<and> frame_counter
        (example_world\<lparr>socket_log := [Sent [8, 0, 0, 0], Sent (replicate 32 0), Received 8 []]\<rparr>)
       = frame_counter example_world"
proof -
  let ?w7 = "set_running True (send (le_bytes 4 (7::u32)) 4 example_world)"
  let ?w8 = "example_world\<lparr>socket_log := [Sent [8, 0, 0, 0], Sent (replicate 32 0), Received 8 []]\<rparr>"
  have h: "proceed_command 7 example_world = Inr (0, ?w7)"
    by (simp add: proceed_command_def Let_def send_def example_world_def)
  have n: "(7::u32) \<noteq> 8" by simp
  have l: "loop_body [] (8, example_world) = Inr (Continue, 0, ?w8)"
    by (rule loop_body_example_8)
  have e: "\<nexists>ks bs. bs \<noteq> [] \<and>
      socket_log ?w8 = socket_log example_world @ [Sent (le_bytes 4 (8::u32)), Sent ks, Received 8 bs]"
    by (simp add: example_world_def)
  from frame_counter_only_advance [of 7 example_world 0 ?w7 "[]" Continue 0 ?w8] h n
  have a: "frame_counter ?w7 = frame_counter example_world" by blast
  from frame_counter_only_advance [of 8 example_world 0 ?w8 "[]" Continue 0 ?w8] l e
  have b: "frame_counter ?w8 = frame_counter example_world" by blast
  from h n a l b show ?thesis by blast
qed

text \<open>
  C2, as the specification states it: processing command value 0 sends the opcode, ends
  the main loop and closes the socket.  On the concrete paused world, one iteration
  with pending command 0 sends nothing, the loop is still going and the socket is
  still open.
\<close>

theorem idle_command_counterexample:
  "main_loop [[]] (0, example_world) = Inr (Looping, 0, example_world)
   \<and> socket_log example_world = [] \<and> socket_open example_world"
  by (simp add: loop_body_def proceed_command_def example_world_def)

text \<open>
  C2, amended.  Command value 0 is the idle value: \<^verbatim>\<open>proceed_command\<close> returns 0 at
  once, with nothing sent, nothing received and no state changed, so the iteration
  ends without \<^verbatim>\<open>break\<close> and the socket stays open.
\<close>

theorem command_zero_is_idle:
  "proceed_command 0 w = Inr (0, w)
   \<and> (\<exists>c' w'. loop_body [] (0, w) = Inr (Continue, c', w')
         \<and> socket_log w' = socket_log w \<and> socket_open w' = socket_open w
         \<and> frame_counter w' = frame_counter w \<and> tasflags w' = tasflags w)"
  by (simp add: proceed_command_def loop_body_def XQueryKeymap_keeps)

text \<open>
  C3.  An opcode-8 command sends the 4-byte opcode, then the 32-byte keyboard state,
  then asks for 8 bytes; when the 8 bytes of the response are there, they are the new
  frame counter (little-endian).
\<close>

theorem advance_exchange:
  assumes "length (keyboard_state w) = 32" and "incoming w = r # rs" and "8 \<le> length r"
  shows "\<exists>w'. proceed_command 8 w = Inr (0, w')
     \<and> socket_log w' = socket_log w @
          [Sent (le_bytes 4 (8::u32)), Sent (keyboard_state w), Received 8 (take 8 r)]
     \<and> length (le_bytes 4 (8::u32)) = 4 \<and> length (keyboard_state w) = 32
     \<and> length (take 8 r) = 8
     \<and> frame_counter w' = le_word (take 8 r)
     \<and> (\<forall>v. take 8 r = le_bytes 8 v \<longrightarrow> frame_counter w' = v)"
proof -
  from proceed_command_8_result [of w] obtain w' where
    p: "proceed_command 8 w = Inr (0, w')"
    and log: "socket_log w' = socket_log w @
          [Sent (le_bytes 4 (8::u32)), Sent (take 32 (keyboard_state w)),
           Received 8 (case incoming w of [] \<Rightarrow> [] | r # rs \<Rightarrow> take 8 r)]"
    and fc: "frame_counter w' =
          le_word (overwrite (case incoming w of [] \<Rightarrow> [] | r # rs \<Rightarrow> take 8 r)
                     (le_bytes 8 (frame_counter w)))"
    by blast
  from assms have len: "length (take 8 r) = 8" by simp
  then have "overwrite (take 8 r) (le_bytes 8 (frame_counter w)) = take 8 r"
    by (simp add: overwrite_all length_le_bytes)
  with fc assms have fc': "frame_counter w' = le_word (take 8 r)" by simp
  then have "\<forall>v. take 8 r = le_bytes 8 v \<longrightarrow> frame_counter w' = v"
    by (simp add: le_word_le_bytes_u64)
  with p log fc' len assms show ?thesis
    by (auto simp: length_le_bytes)
qed

theorem advance_exchange_witness:
  "length (keyboard_state (example_world\<lparr>incoming := [[3, 0, 0, 0, 0, 0, 0, 0]]\<rparr>)) = 32
   \<and> (8::nat) \<le> length [3, 0, 0, 0, 0, 0, 0, 0::byte]
   \<and> (\<exists>w'. proceed_command 8 (example_world\<lparr>incoming := [[3, 0, 0, 0, 0, 0, 0, 0]]\<rparr>) = Inr (0, w')
         \<and> socket_log w' =
             [Sent [8, 0, 0, 0], Sent (replicate 32 0), Received 8 [3, 0, 0, 0, 0, 0, 0, 0]]
         \<and> frame_counter w' = 3)"
proof -
  let ?w = "example_world\<lparr>incoming := [[3, 0, 0, 0, 0, 0, 0, 0]]\<rparr>"
  have k: "length (keyboard_state ?w) = 32" by (simp add: example_world_def)
  have i: "incoming ?w = [3, 0, 0, 0, 0, 0, 0, 0] # []" by simp
  have l: "(8::nat) \<le> length [3, 0, 0, 0, 0, 0, 0, 0::byte]" by simp
  from advance_exchange [OF k i l] k l show ?thesis
    by (auto simp: le_bytes_opcode example_world_def)
qed

text \<open>
  C8.  A command value above 11 is ignored: \<^verbatim>\<open>proceed_command\<close> prints a line on the
  terminal and returns 0; nothing is sent or received, no global changes, and the
  iteration ends without \<^verbatim>\<open>break\<close> with the socket open.
\<close>

theorem unknown_command_ignored:
  assumes "11 < c"
  shows "proceed_command c w = Inr (0, w\<lparr>stdout := stdout w @ [NoSuchCommand]\<rparr>)
   \<and> (\<exists>c' w'. loop_body [] (c, w) = Inr (Continue, c', w')
         \<and> socket_log w' = socket_log w \<and> socket_open w' = socket_open w
         \<and> incoming w' = incoming w
         \<and> frame_counter w' = frame_counter w \<and> tasflags w' = tasflags w)"
proof -
  from assms have "c \<noteq> 0" by auto
  with assms have p: "proceed_command c w = Inr (0, printf NoSuchCommand w)" for w
    by (simp add: proceed_command_def)
  show ?thesis
    by (simp add: p loop_body_def printf_def XQueryKeymap_keeps)
qed

theorem unknown_command_ignored_witness:
  "(11::u32) < 12
   \<and> proceed_command 12 example_world
       = Inr (0, example_world\<lparr>stdout := stdout example_world @ [NoSuchCommand]\<rparr>)"
  using unknown_command_ignored [of 12 example_world] by simp

text \<open>
  C10.  At the end of an iteration the pending command is 8 when \<open>running\<close> is set and
  0 when it is not.  With \<open>running\<close> set, the next iteration makes the opcode-8
  exchange whatever events are pending, none included.  With \<open>running\<close> clear, the next
  iteration sends nothing unless the frame-advance hotkey is among its events, in
  which case it makes the opcode-8 exchange.
\<close>

theorem pending_command_follows_running:
  assumes "loop_body evs (c, w) = Inr (ctl, c', w')"
  shows "c' = (if running (tasflags w') then 8 else 0)
   \<and> (running (tasflags w') \<longrightarrow>
        (\<forall>evs2. \<exists>c'' w'' ks got. loop_body evs2 (c', w') = Inr (Continue, c'', w'')
           \<and> socket_log w'' = socket_log w' @ [Sent (le_bytes 4 (8::u32)), Sent ks, Received 8 got]))
   \<and> (\<not> running (tasflags w') \<longrightarrow>
        (\<forall>evs2. if KeyPress (hotkeys w' HOTKEY_FRAMEADVANCE) \<in> set evs2
           then \<exists>c'' w'' ks got. loop_body evs2 (c', w') = Inr (Continue, c'', w'')
             \<and> socket_log w'' = socket_log w' @ [Sent (le_bytes 4 (8::u32)), Sent ks, Received 8 got]
           else \<exists>c'' w''. loop_body evs2 (c', w') = Inr (Continue, c'', w'')
             \<and> socket_log w'' = socket_log w'))"
proof -
  from assms have c': "c' = (if running (tasflags w') then 8 else 0)"
    by (auto elim: loop_body_unfold)
  have next_iteration: "\<exists>w1. fold handle_event evs2 (c', w') =
      (if KeyPress (hotkeys w' HOTKEY_FRAMEADVANCE) \<in> set evs2 then 8 else c', w1)" for evs2
  proof -
    obtain c1 w1 where f: "fold handle_event evs2 (c', w') = (c1, w1)"
      by (cases "fold handle_event evs2 (c', w')") auto
    from fold_handle_event_keeps [OF f] f show ?thesis by auto
  qed
  have running_case: "\<exists>c'' w'' ks got. loop_body evs2 (c', w') = Inr (Continue, c'', w'')
           \<and> socket_log w'' = socket_log w' @ [Sent (le_bytes 4 (8::u32)), Sent ks, Received 8 got]"
    if "running (tasflags w')" for evs2
  proof -
    from that c' next_iteration [of evs2] obtain w1 where
      "fold handle_event evs2 (c', w') = (8, w1)" by auto
    then show ?thesis by (rule loop_body_sends_8)
  qed
  have hotkey_case: "\<exists>c'' w'' ks got. loop_body evs2 (c', w') = Inr (Continue, c'', w'')
           \<and> socket_log w'' = socket_log w' @ [Sent (le_bytes 4 (8::u32)), Sent ks, Received 8 got]"
    if "KeyPress (hotkeys w' HOTKEY_FRAMEADVANCE) \<in> set evs2" for evs2
  proof -
    from that next_iteration [of evs2] obtain w1 where
      "fold handle_event evs2 (c', w') = (8, w1)" by auto
    then show ?thesis by (rule loop_body_sends_8)
  qed
  have paused_case: "\<exists>c'' w''. loop_body evs2 (c', w') = Inr (Continue, c'', w'')
             \<and> socket_log w'' = socket_log w'"
    if "\<not> running (tasflags w')" "KeyPress (hotkeys w' HOTKEY_FRAMEADVANCE) \<notin> set evs2" for evs2
  proof -
    from that c' next_iteration [of evs2] obtain w1 where
      "fold handle_event evs2 (c', w') = (0, w1)" by auto
    then show ?thesis by (rule loop_body_sends_nothing)
  qed
  show ?thesis
  proof (intro conjI impI allI)
    show "c' = (if running (tasflags w') then 8 else 0)" by (rule c')
  next
    fix evs2
    assume "running (tasflags w')"
    then show "\<exists>c'' w'' ks got. loop_body evs2 (c', w') = Inr (Continue, c'', w'')
           \<and> socket_log w'' = socket_log w' @ [Sent (le_bytes 4 (8::u32)), Sent ks, Received 8 got]"
      by (rule running_case)
  next
    fix evs2
    assume paused: "\<not> running (tasflags w')"
    show "if KeyPress (hotkeys w' HOTKEY_FRAMEADVANCE) \<in> set evs2
           then \<exists>c'' w'' ks got. loop_body evs2 (c', w') = Inr (Continue, c'', w'')
             \<and> socket_log w'' = socket_log w' @ [Sent (le_bytes 4 (8::u32)), Sent ks, Received 8 got]
           else \<exists>c'' w''. loop_body evs2 (c', w') = Inr (Continue, c'', w'')
             \<and> socket_log w'' = socket_log w'"
    proof (cases "KeyPress (hotkeys w' HOTKEY_FRAMEADVANCE) \<in> set evs2")
      case True
      with hotkey_case [OF True] show ?thesis by (simp only: if_True)
    next
      case False
      with paused_case [OF paused False] show ?thesis by (simp only: if_False)
    qed
  qed
qed

theorem pending_command_follows_running_witness:
  "loop_body [KeyPress 0xff13] (0, example_world) = Inr (Continue, 8, set_running True example_world)
   \<and> running (tasflags (set_running True example_world))
   \<and> (\<exists>c'' w'' ks got. loop_body [] (8, set_running True example_world) = Inr (Continue, c'', w'')
         \<and> socket_log w'' = socket_log (set_running True example_world)
              @ [Sent (le_bytes 4 (8::u32)), Sent ks, Received 8 got])
   \<and> loop_body [] (0, example_world) = Inr (Continue, 0, example_world)
   \<and> \<not> running (tasflags example_world)
   \<and> KeyPress (hotkeys example_world HOTKEY_FRAMEADVANCE) \<notin> set []
   \<and> (\<exists>c'' w''. loop_body [] (0, example_world) = Inr (Continue, c'', w'')
         \<and> socket_log w'' = socket_log example_world)"
proof -
  have r: "running (tasflags (set_running True example_world))"
    by (simp add: set_running_def)
  have p: "\<not> running (tasflags example_world)"
    by (simp add: example_world_def)
  from pending_command_follows_running [OF loop_body_example_play] r
  have a: "\<exists>c'' w'' ks got. loop_body [] (8, set_running True example_world) = Inr (Continue, c'', w'')
         \<and> socket_log w'' = socket_log (set_running True example_world)
              @ [Sent (le_bytes 4 (8::u32)), Sent ks, Received 8 got]"
    by simp
  from pending_command_follows_running [OF loop_body_example_paused] p
  have "\<forall>evs2. if KeyPress (hotkeys example_world HOTKEY_FRAMEADVANCE) \<in> set evs2
           then \<exists>c'' w'' ks got. loop_body evs2 (0, example_world) = Inr (Continue, c'', w'')
             \<and> socket_log w'' = socket_log example_world @ [Sent (le_bytes 4 (8::u32)), Sent ks, Received 8 got]
           else \<exists>c'' w''. loop_body evs2 (0, example_world) = Inr (Continue, c'', w'')
             \<and> socket_log w'' = socket_log example_world"
    by simp
  from this [rule_format, of "[]"]
  have b: "\<exists>c'' w''. loop_body [] (0, example_world) = Inr (Continue, c'', w'')
         \<and> socket_log w'' = socket_log example_world"
    by simp
  from loop_body_example_play r a loop_body_example_paused p b show ?thesis by simp
qed

text \<open>
  C6.  Of join and detach, one invocation at most succeeds on a thread record.  After
  a detach that succeeded or a join that returned the exit status, a second detach and
  a second join on the same id both fail with the usage-contract error; and after any
  further run of registry operations that does not register the id anew, join and
  detach on it still fail.
\<close>

theorem join_detach_exclusive:
  "(detach tid r = Inr r' \<or> join tid r = Inr (Some st, r') \<longrightarrow>
      detach tid r' = Inl UsageContract \<and> join tid r' = Inl UsageContract)
   \<and> ((detach tid r = Inr r' \<or> join tid r = Inr (Some st, r'))
        \<and> (\<forall>d. Register tid d \<notin> set ops) \<longrightarrow>
      isl (detach tid (fold apply_op ops r')) \<and> isl (join tid (fold apply_op ops r')))"
  using detach_then join_then spent_fold spent_refuses by blast

theorem join_detach_exclusive_witness:
  "join 7 one_thread = Inr (Some 3, joined_thread)
   \<and> detach 7 one_thread = Inr detached_thread
   \<and> (\<forall>d. Register 7 d \<notin> set [MarkRunning 7, ThreadExit 7 5])
   \<and> detach 7 joined_thread = Inl UsageContract \<and> join 7 joined_thread = Inl UsageContract
   \<and> detach 7 detached_thread = Inl UsageContract \<and> join 7 detached_thread = Inl UsageContract
   \<and> isl (detach 7 (fold apply_op [MarkRunning 7, ThreadExit 7 5] joined_thread))
   \<and> isl (join 7 (fold apply_op [MarkRunning 7, ThreadExit 7 5] joined_thread))"
proof -
  have j: "join 7 one_thread = Inr (Some 3, joined_thread)"
    by (simp add: join_def one_thread_def joined_thread_def)
  have d: "detach 7 one_thread = Inr detached_thread"
    by (simp add: detach_def one_thread_def detached_thread_def)
  have n: "\<forall>d. Register 7 d \<notin> set [MarkRunning 7, ThreadExit 7 5]" by simp
  from join_detach_exclusive [of 7 one_thread joined_thread 3 "[MarkRunning 7, ThreadExit 7 5]"] j n
  have a: "detach 7 joined_thread = Inl UsageContract \<and> join 7 joined_thread = Inl UsageContract
     \<and> isl (detach 7 (fold apply_op [MarkRunning 7, ThreadExit 7 5] joined_thread))
     \<and> isl (join 7 (fold apply_op [MarkRunning 7, ThreadExit 7 5] joined_thread))"
    by blast
  from join_detach_exclusive [of 7 one_thread detached_thread 3 "[]"] d
  have b: "detach 7 detached_thread = Inl UsageContract \<and> join 7 detached_thread = Inl UsageContract"
    by blast
  from j d n a b show ?thesis by blast
qed

text \<open>
  C4.  An opcode-9 command never sends a zero divisor; it prompts again until a
  nonzero value is stored and only then sends it.  Whenever the command returns, there
  is a number \<open>k\<close> of passes through the loop body that each left the stored divisor
  0, the next pass stored a nonzero value, and what the command sent is the opcode and
  then the four bytes of that value.  Conversely, as soon as a pass stores a nonzero
  value after passes that stored 0, the command returns and has sent that value.  And
  however many times the loop body has run, on whatever input, only the opcode has
  been sent, and one prompt per pass printed.
\<close>

theorem speed_divisor_never_zero:
  "(\<forall>r w'. proceed_command 9 w = Inr (r, w') \<longrightarrow>
       r = 0 \<and>
       (\<exists>k v. v \<noteq> 0
          \<and> (\<forall>j<k. speed_divisor (tasflags (case9_after (Suc j) w)) = 0)
          \<and> speed_divisor (tasflags (case9_after (Suc k) w)) = v
          \<and> w' = send (le_bytes 4 v) 4 (case9_after (Suc k) w)
          \<and> socket_log w' = socket_log w @ [Sent (le_bytes 4 (9::u32)), Sent (le_bytes 4 v)]))
   \<and> (\<forall>k. (\<forall>j<k. speed_divisor (tasflags (case9_after (Suc j) w)) = 0)
          \<and> speed_divisor (tasflags (case9_after (Suc k) w)) \<noteq> 0 \<longrightarrow>
        proceed_command 9 w =
          Inr (0, send (le_bytes 4 (speed_divisor (tasflags (case9_after (Suc k) w)))) 4
                    (case9_after (Suc k) w)))
   \<and> (\<forall>k. socket_log (case9_after k w) = socket_log w @ [Sent (le_bytes 4 (9::u32))]
          \<and> stdout (case9_after k w) = stdout w @ replicate k PromptSpeed)"
proof (intro conjI allI impI)
  fix k
  show "socket_log (case9_after k w) = socket_log w @ [Sent (le_bytes 4 (9::u32))]"
    by (simp add: case9_after_def funpow_speed_prompt_keeps set_speed_divisor_def send_def
          length_le_bytes)
  show "stdout (case9_after k w) = stdout w @ replicate k PromptSpeed"
    by (simp add: case9_after_def funpow_speed_prompt_stdout set_speed_divisor_def send_def)
next
  fix r w'
  assume p: "proceed_command 9 w = Inr (r, w')"
  then show "r = 0" by (rule proceed_command_returns_0)
  let ?w1 = "set_speed_divisor 0 (send (le_bytes 4 (9::u32)) 4 w)"
  from p obtain w2 where l: "speed_loop ?w1 = Some w2"
    and w': "w' = send (le_bytes 4 (speed_divisor (tasflags w2))) 4 w2"
    by (auto simp: proceed_command_9 split: option.splits)
  from speed_loop_Some_iterate [OF l] obtain k where
    k: "w2 = case9_after (Suc k) w"
      "\<forall>j<k. speed_divisor (tasflags (case9_after (Suc j) w)) = 0"
      "speed_divisor (tasflags w2) \<noteq> 0"
    unfolding case9_after_def by blast
  from speed_loop_sound [OF l] w'
  have "socket_log w' = socket_log w @
      [Sent (le_bytes 4 (9::u32)), Sent (le_bytes 4 (speed_divisor (tasflags w2)))]"
    by (simp add: send_def set_speed_divisor_def length_le_bytes)
  with k w'
  show "\<exists>k v. v \<noteq> 0
          \<and> (\<forall>j<k. speed_divisor (tasflags (case9_after (Suc j) w)) = 0)
          \<and> speed_divisor (tasflags (case9_after (Suc k) w)) = v
          \<and> w' = send (le_bytes 4 v) 4 (case9_after (Suc k) w)
          \<and> socket_log w' = socket_log w @ [Sent (le_bytes 4 (9::u32)), Sent (le_bytes 4 v)]"
    by blast
next
  fix k
  assume a: "(\<forall>j<k. speed_divisor (tasflags (case9_after (Suc j) w)) = 0)
          \<and> speed_divisor (tasflags (case9_after (Suc k) w)) \<noteq> 0"
  let ?w1 = "set_speed_divisor 0 (send (le_bytes 4 (9::u32)) 4 w)"
  from a have "speed_loop ?w1 = Some ((speed_prompt ^^ Suc k) ?w1)"
    unfolding case9_after_def by (intro speed_loop_returns_at) blast+
  then show "proceed_command 9 w =
          Inr (0, send (le_bytes 4 (speed_divisor (tasflags (case9_after (Suc k) w)))) 4
                    (case9_after (Suc k) w))"
    by (simp add: proceed_command_9 case9_after_def)
qed

theorem speed_divisor_never_zero_witness:
  "speed_divisor (tasflags (case9_after (Suc 0) divisor_world)) = 0
   \<and> speed_divisor (tasflags (case9_after (Suc (Suc 0)) divisor_world)) = 4
   \<and> (\<exists>w'. proceed_command 9 divisor_world = Inr (0, w')
         \<and> speed_divisor (tasflags w') = 4
         \<and> socket_log w' = [Sent [9, 0, 0, 0], Sent [4, 0, 0, 0]]
         \<and> stdout w' = [PromptSpeed, PromptSpeed])"
proof -
  let ?w2 = "case9_after (Suc (Suc 0)) divisor_world"
  note d = divisor_world_passes
  have h: "(\<forall>j<Suc 0. speed_divisor (tasflags (case9_after (Suc j) divisor_world)) = 0)
     \<and> speed_divisor (tasflags ?w2) \<noteq> 0"
    by (simp add: d)
  from speed_divisor_never_zero [of divisor_world] h
  have p: "proceed_command 9 divisor_world =
      Inr (0, send (le_bytes 4 (speed_divisor (tasflags ?w2))) 4 ?w2)"
    by blast
  from speed_divisor_never_zero [of divisor_world]
  have l: "socket_log ?w2 = socket_log divisor_world @ [Sent (le_bytes 4 (9::u32))]"
    and o: "stdout ?w2 = stdout divisor_world @ replicate (Suc (Suc 0)) PromptSpeed"
    by blast+
  let ?w' = "send (le_bytes 4 (speed_divisor (tasflags ?w2))) 4 ?w2"
  have "speed_divisor (tasflags ?w') = 4" by (simp add: send_def d)
  moreover from l have "socket_log ?w' = [Sent [9, 0, 0, 0], Sent [4, 0, 0, 0]]"
    by (simp add: send_def d le_bytes_4 divisor_world_logs)
  moreover from o have "stdout ?w' = [PromptSpeed, PromptSpeed]"
    by (simp add: send_def divisor_world_logs)
  ultimately show ?thesis using p d by blast
qed

text \<open>
  C5, as the specification states it: while zero entries are being rejected the stored
  divisor keeps the value it had before the command.  On the concrete world the
  divisor is 1 before the command, the first entry scans as 0, and after that pass
  the stored divisor is 0.
\<close>

theorem prior_divisor_counterexample:
  "speed_divisor (tasflags divisor_world) = 1
   \<and> next_entry (case9_after 0 divisor_world) = Some 0
   \<and> speed_divisor (tasflags (case9_after (Suc 0) divisor_world)) = 0
   \<and> speed_divisor (tasflags (case9_after (Suc 0) divisor_world))
       \<noteq> speed_divisor (tasflags divisor_world)"
  by (simp add: divisor_world_passes) (simp add: divisor_world_def example_world_def)

text \<open>
  C5, amended.  The command zeroes the stored divisor before it prompts.  So while
  each entry scans as the value 0, the stored divisor is 0 from the start of the
  command on, whatever it was before; nothing but the opcode has been sent by then,
  and the command goes on from that state.
\<close>

theorem divisor_zero_while_rejected:
  assumes "\<forall>j<k. next_entry (case9_after j w) = Some 0"
  shows "(\<forall>j\<le>k. speed_divisor (tasflags (case9_after j w)) = 0)
   \<and> socket_log (case9_after k w) = socket_log w @ [Sent (le_bytes 4 (9::u32))]
   \<and> proceed_command 9 w =
       (case speed_loop (case9_after k w) of
          None \<Rightarrow> Inl LoopsForever
        | Some w2 \<Rightarrow> Inr (0, send (le_bytes 4 (speed_divisor (tasflags w2))) 4 w2))"
proof -
  let ?w1 = "set_speed_divisor 0 (send (le_bytes 4 (9::u32)) 4 w)"
  have step: "case9_after (Suc j) w = speed_prompt (case9_after j w)" for j
    by (simp add: case9_after_def)
  have zero: "speed_divisor (tasflags (case9_after j w)) = 0" if "j \<le> k" for j
  proof (cases j)
    case 0
    show ?thesis by (simp add: 0 case9_after_def set_speed_divisor_def)
  next
    case (Suc i)
    with that assms have "next_entry (case9_after i w) = Some 0" by simp
    from next_entry_speed_prompt [OF this] Suc step show ?thesis by simp
  qed
  have "\<forall>j<k. speed_divisor (tasflags ((speed_prompt ^^ Suc j) ?w1)) = 0"
  proof (intro allI impI)
    fix j assume "j < k"
    then have "Suc j \<le> k" by simp
    from zero [OF this] show "speed_divisor (tasflags ((speed_prompt ^^ Suc j) ?w1)) = 0"
      by (simp add: case9_after_def)
  qed
  then have "speed_loop ?w1 = speed_loop (case9_after k w)"
    unfolding case9_after_def by (rule speed_loop_skip)
  moreover have "socket_log (case9_after k w) = socket_log w @ [Sent (le_bytes 4 (9::u32))]"
    by (simp add: case9_after_def funpow_speed_prompt_keeps set_speed_divisor_def send_def
          length_le_bytes)
  ultimately show ?thesis using zero by (simp add: proceed_command_9)
qed

theorem divisor_zero_while_rejected_witness:
  "next_entry (case9_after 0 divisor_world) = Some 0
   \<and> speed_divisor (tasflags (case9_after 0 divisor_world)) = 0
   \<and> speed_divisor (tasflags (case9_after (Suc 0) divisor_world)) = 0
   \<and> socket_log (case9_after (Suc 0) divisor_world) = [Sent [9, 0, 0, 0]]"
proof -
  have a: "\<forall>j<Suc 0. next_entry (case9_after j divisor_world) = Some 0"
    by (simp add: divisor_world_passes)
  from divisor_zero_while_rejected [OF a]
  have "speed_divisor (tasflags (case9_after 0 divisor_world)) = 0"
    "speed_divisor (tasflags (case9_after (Suc 0) divisor_world)) = 0"
    "socket_log (case9_after (Suc 0) divisor_world)
       = socket_log divisor_world @ [Sent (le_bytes 4 (9::u32))]"
    by simp_all
  then show ?thesis
    by (simp add: divisor_world_passes(1) le_bytes_4 divisor_world_logs)
qed

text \<open>
  C7.  The claim is that an opcode-11 command answered with the byte 0 leaves the frame
  counter and the pause/run state as they were.  Line 200 scans the file name with
  \<^verbatim>\<open>%s\<close> and no field width into the 1024 bytes of \<open>filename_buffer\<close>.  On a name
  of 1024 characters the scan writes 1025 bytes, past the end of the array, and the
  command does not return a state at all.  (For a name shorter than 1024 characters
  the claim holds: lemma \<open>load_failure_changes_nothing\<close>.)
\<close>

theorem load_name_overrun:
  "proceed_command 11 long_name_world = Inl BufferOverrun
   \<and> length (typed_name (stdin long_name_world)) = 1024"
proof -
  let ?w1 = "printf PromptLoadFile (send (le_bytes 4 (11::u32)) 4 long_name_world)"
  have "dropWhile isspace (stdin ?w1) = replicate 1024 120 @ [10]"
    by (simp add: printf_def send_def long_name_world_def long_name_input)
  from scanf_s_name [OF this]
  have "read_filename ?w1 = Inl BufferOverrun"
    by (simp add: read_filename_def long_name_input)
  moreover have "length (typed_name (stdin long_name_world)) = 1024"
    by (simp add: typed_name_def long_name_world_def long_name_input)
  ultimately show ?thesis by (simp add: proceed_command_11)
qed

end
